theory Spec2Isabelle
  imports Main "HOL-Library.Char_ord" "HOL-Library.List_Lexorder" "HOL-Library.Sublist"
begin

section \<open>The gitlab-owners integration (reconcile/gitlab\_owners.py)\<close>

text \<open>
  Python strings are modelled as \<^typ>\<open>string\<close>: one \<^typ>\<open>char\<close> stands for one
  code point below 256. Strings are ordered by code point, lexicographically, as Python
  orders them. Exceptions are values of \<open>py_error\<close>; a function that can raise returns
  \<open>py_error + 'a\<close>, with \<open>Inl\<close> for the exception.
\<close>

datatype py_error =
  KeyError | TypeError | OwnerNotFoundError | JSONDecodeError | RecursionError | YAMLError

subsection \<open>Python built-ins the module uses\<close>

text \<open>\<open>s.startswith(p)\<close>.\<close>

fun startswith :: "string \<Rightarrow> string \<Rightarrow> bool" where
  "startswith s [] = True"
| "startswith [] (c # cs) = False"
| "startswith (x # xs) (c # cs) = (x = c \<and> startswith xs cs)"

text \<open>
  A Python \<open>set\<close> of strings iterates in an order the language leaves open (string
  hashes are salted per process). The interpreter's choice is the parameter \<open>h\<close> of the
  model: it maps the sequence of insertions that built a set to the sequence an iteration
  yields. Whatever the interpreter does, an iteration yields every member once.
\<close>

type_synonym set_iteration = "string list \<Rightarrow> string list"

definition set_iteration_ok :: "set_iteration \<Rightarrow> bool" where
  "set_iteration_ok h = (\<forall>xs. set (h xs) = set xs \<and> distinct (h xs))"

text \<open>\<open>sorted(s)\<close> for a set \<open>s\<close> built by inserting \<open>xs\<close>.\<close>

definition sorted_of_set :: "set_iteration \<Rightarrow> string list \<Rightarrow> string list" where
  "sorted_of_set h xs = sort (h xs)"

text \<open>
  \<open>max(candidates, key=lambda x: len(x))\<close> on a non-empty list: the first item is the
  running maximum, and a later item replaces it only when its key is strictly greater.
\<close>

fun max_len_from :: "string \<Rightarrow> string list \<Rightarrow> string" where
  "max_len_from best [] = best"
| "max_len_from best (x # xs) =
     max_len_from (if length best < length x then x else best) xs"

text \<open>
  \<open>d[k] = v\<close> on a dictionary, kept as an association list in insertion order: an
  existing key keeps its place and takes the new value, a new key goes last.
\<close>

fun dict_set :: "'k \<Rightarrow> 'v \<Rightarrow> ('k \<times> 'v) list \<Rightarrow> ('k \<times> 'v) list" where
  "dict_set k v [] = [(k, v)]"
| "dict_set k v (p # ps) = (if fst p = k then (k, v) # ps else p # dict_set k v ps)"

subsection \<open>ProjectOwners\<close>

text \<open>
  \<open>_owners_map\<close>: owned directory to the approvers of its OWNERS file, here a list
  of owner names.
\<close>

type_synonym owners_map = "(string \<times> string list) list"

text \<open>The loop of \<open>get_all_owners\<close>; \<open>acc\<close> is what has been inserted into \<open>path_owners\<close>.\<close>

fun path_owners_loop :: "owners_map \<Rightarrow> string \<Rightarrow> string list \<Rightarrow> string list" where
  "path_owners_loop [] path acc = acc"
| "path_owners_loop ((owned_path, approvers) # rest) path acc =
     path_owners_loop rest path (if startswith path owned_path then acc @ approvers else acc)"

definition get_all_owners :: "set_iteration \<Rightarrow> owners_map \<Rightarrow> string \<Rightarrow> py_error + string list" where
  "get_all_owners h owners_map path =
     (let path_owners = path_owners_loop owners_map path [] in
      if path_owners = [] then Inl KeyError
      else Inr (sorted_of_set h path_owners))"

text \<open>The loop of \<open>get_closest_owners\<close> over the keys of the map.\<close>

fun candidates_loop :: "string list \<Rightarrow> string \<Rightarrow> string list \<Rightarrow> string list" where
  "candidates_loop [] path candidates = candidates"
| "candidates_loop (owned_path # rest) path candidates =
     candidates_loop rest path
       (if startswith path owned_path then candidates @ [owned_path] else candidates)"

definition get_closest_owners :: "set_iteration \<Rightarrow> owners_map \<Rightarrow> string \<Rightarrow> py_error + string list" where
  "get_closest_owners h owners_map path =
     (case candidates_loop (map fst owners_map) path [] of
        [] \<Rightarrow> Inl KeyError
      | c # cs \<Rightarrow>
          (let elected = max_len_from c cs in
           case map_of owners_map elected of
             None \<Rightarrow> Inl KeyError
           | Some approvers \<Rightarrow> Inr (sorted_of_set h approvers)))"

subsection \<open>Building the owners map\<close>

text \<open>
  What \<open>yaml.safe_load\<close> and \<open>json.loads\<close> return: \<open>None\<close>, booleans, numbers,
  strings, lists and dictionaries (in insertion order, keys distinct). A float is kept as
  mantissa and binary exponent; nothing below looks inside a number.
\<close>

datatype pyval =
    PNone
  | PBool bool
  | PInt int
  | PFloat int int
  | PStr string
  | PList "pyval list"
  | PDict "(pyval \<times> pyval) list"



fun join :: "string \<Rightarrow> string list \<Rightarrow> string" where
  "join sep [] = []"
| "join sep [x] = x"
| "join sep (x # y # ys) = x @ sep @ join sep (y # ys)"




text \<open>
  \<open>_get_owners_map\<close>. The GitLab client and the YAML parser are parameters:
  \<open>blob_content id\<close> is the decoded text of the blob (\<open>repository_blob\<close>, then
  \<open>b64decode\<close> and \<open>decode\<close>), \<open>safe_load\<close> is \<open>yaml.safe_load\<close>. The map stores
  whatever the document has under \<open>approvers\<close>. The second component of the result is
  the debug log. Only a \<open>KeyError\<close> raised inside the \<open>try\<close> is handled.
\<close>











subsection \<open>Text the module produces\<close>

text \<open>Two lower-case hexadecimal digits of a code point below 256.\<close>

definition hex_digit :: "nat \<Rightarrow> char" where
  "hex_digit n = ''0123456789abcdef'' ! (n mod 16)"

definition hex2 :: "char \<Rightarrow> string" where
  "hex2 c = [hex_digit (of_char c div 16), hex_digit (of_char c)]"

text \<open>
  \<open>repr(s)\<close> of a string: single quotes, unless the string has a single quote and no
  double quote; the quote and the backslash are escaped, tab, newline and carriage return
  have their letters, and the code points that are not printable (below the space, 127
  to 160, and 173) are written \<open>\xhh\<close>.
\<close>

definition repr_char :: "char \<Rightarrow> char \<Rightarrow> string" where
  "repr_char quote c =
     (if c = quote \<or> c = CHR 0x5C then [CHR 0x5C, c]
      else if c = CHR 0x09 then [CHR 0x5C, CHR ''t'']
      else if c = CHR 0x0A then [CHR 0x5C, CHR ''n'']
      else if c = CHR 0x0D then [CHR 0x5C, CHR ''r'']
      else if (of_char c :: nat) < 32 \<or> (of_char c :: nat) = 127 then [CHR 0x5C, CHR ''x''] @ hex2 c
      else if (of_char c :: nat) < 127 then [c]
      else if (of_char c :: nat) \<le> 160 \<or> (of_char c :: nat) = 173 then [CHR 0x5C, CHR ''x''] @ hex2 c
      else [c])"

definition repr_str :: "string \<Rightarrow> string" where
  "repr_str s =
     (let quote = (if CHR 0x27 \<in> set s \<and> CHR 0x22 \<notin> set s then CHR 0x22 else CHR 0x27)
      in [quote] @ concat (map (repr_char quote) s) @ [quote])"

text \<open>\<open>repr\<close> of a list of strings, which is what an f-string prints for it.\<close>

definition repr_list :: "string list \<Rightarrow> string" where
  "repr_list xs = ''['' @ join '', '' (map repr_str xs) @ '']''"

text \<open>
  \<open>json.dumps(report, indent=4)\<close> for a dictionary of strings to strings. Strings are
  escaped as \<open>ensure_ascii\<close> does; the items are written in the dictionary's order
  (\<open>sort_keys\<close> is not set), one per line.
\<close>

definition json_escape_char :: "char \<Rightarrow> string" where
  "json_escape_char c =
     (if c = CHR 0x22 then [CHR 0x5C, CHR 0x22]
      else if c = CHR 0x5C then [CHR 0x5C, CHR 0x5C]
      else if c = CHR 0x0A then [CHR 0x5C, CHR ''n'']
      else if c = CHR 0x0D then [CHR 0x5C, CHR ''r'']
      else if c = CHR 0x09 then [CHR 0x5C, CHR ''t'']
      else if c = CHR 0x08 then [CHR 0x5C, CHR ''b'']
      else if c = CHR 0x0C then [CHR 0x5C, CHR ''f'']
      else if 32 \<le> (of_char c :: nat) \<and> (of_char c :: nat) \<le> 126 then [c]
      else [CHR 0x5C, CHR ''u'', CHR ''0'', CHR ''0''] @ hex2 c)"

definition json_string :: "string \<Rightarrow> string" where
  "json_string s = [CHR 0x22] @ concat (map json_escape_char s) @ [CHR 0x22]"

definition json_item :: "string \<times> string \<Rightarrow> string" where
  "json_item kv = ''    '' @ json_string (fst kv) @ '': '' @ json_string (snd kv)"

definition json_dumps :: "(string \<times> string) list \<Rightarrow> string" where
  "json_dumps d =
     (if d = [] then ''{}''
      else ''{'' @ [CHR 0x0A] @ join ('','' @ [CHR 0x0A]) (map json_item d) @ [CHR 0x0A] @ ''}'')"

text \<open>\<open>s.lstrip(chars)\<close> and \<open>s.rstrip(chars)\<close>: \<open>chars\<close> is a set of characters.\<close>

definition lstrip :: "string \<Rightarrow> string \<Rightarrow> string" where
  "lstrip s chars = dropWhile (\<lambda>c. c \<in> set chars) s"

definition rstrip :: "string \<Rightarrow> string \<Rightarrow> string" where
  "rstrip s chars = rev (dropWhile (\<lambda>c. c \<in> set chars) (rev s))"

definition fence :: string where
  "fence = [CHR 0x60, CHR 0x60, CHR 0x60]"

subsection \<open>MRApproval\<close>

text \<open>
  A comment of the merge request as the client lists it. \<open>created_at\<close> is the instant
  that \<open>dateparser.parse\<close> reads from the comment's timestamp, on the same scale as the
  creation time of the top commit.
\<close>

record comment =
  username :: string
  body :: string
  created_at :: int

text \<open>
  What the module reads of one merge request: its changed paths, its comments, its labels
  and the creation time of its top commit.
\<close>

record merge_request =
  changed_paths :: "string list"
  comments :: "comment list"
  labels :: "string list"
  top_commit_created_at :: int

record change_owners =
  owners :: "string list"
  closest_owners :: "string list"

record approval_status =
  approved :: bool
  report :: "string option"

definition APPROVAL_LABEL :: string where
  "APPROVAL_LABEL = ''approved''"

text \<open>
  \<open>get_change_owners_map\<close>: a \<open>KeyError\<close> of either query is raised again as
  \<open>OwnerNotFoundError\<close>.
\<close>

definition path_change_owners :: "set_iteration \<Rightarrow> owners_map \<Rightarrow> string \<Rightarrow> py_error + change_owners" where
  "path_change_owners h owners_map path =
     (case get_all_owners h owners_map path of
        Inl e \<Rightarrow> Inl e
      | Inr all \<Rightarrow>
          (case get_closest_owners h owners_map path of
             Inl e \<Rightarrow> Inl e
           | Inr closest \<Rightarrow> Inr \<lparr>owners = all, closest_owners = closest\<rparr>))"

fun change_owners_loop ::
  "set_iteration \<Rightarrow> owners_map \<Rightarrow> string list \<Rightarrow> (string \<times> change_owners) list \<Rightarrow>
   py_error + (string \<times> change_owners) list" where
  "change_owners_loop h owners_map [] change_owners_map = Inr change_owners_map"
| "change_owners_loop h owners_map (path # paths) change_owners_map =
     (case path_change_owners h owners_map path of
        Inl e \<Rightarrow> Inl (if e = KeyError then OwnerNotFoundError else e)
      | Inr co \<Rightarrow> change_owners_loop h owners_map paths (dict_set path co change_owners_map))"

definition get_change_owners_map ::
  "set_iteration \<Rightarrow> owners_map \<Rightarrow> merge_request \<Rightarrow> py_error + (string \<times> change_owners) list" where
  "get_change_owners_map h owners_map mr = change_owners_loop h owners_map (changed_paths mr) []"

text \<open>\<open>get_lgtms\<close>, on the comments and the creation time of the top commit.\<close>

fun lgtms_loop :: "int \<Rightarrow> comment list \<Rightarrow> string list \<Rightarrow> string list" where
  "lgtms_loop top_at [] lgtms = lgtms"
| "lgtms_loop top_at (c # cs) lgtms =
     (if body c \<noteq> ''/lgtm'' then lgtms_loop top_at cs lgtms
      else if created_at c < top_at then lgtms_loop top_at cs lgtms
      else lgtms_loop top_at cs (lgtms @ [username c]))"

definition get_lgtms :: "merge_request \<Rightarrow> string list" where
  "get_lgtms mr = lgtms_loop (top_commit_created_at mr) (comments mr) []"

text \<open>The inner loop of \<open>get_approval_status\<close> over the owners of one change.\<close>

fun change_approved_loop :: "string list \<Rightarrow> string list \<Rightarrow> bool \<Rightarrow> bool" where
  "change_approved_loop [] lgtms change_approved = change_approved"
| "change_approved_loop (owner # rest) lgtms change_approved =
     change_approved_loop rest lgtms (if owner \<in> set lgtms then True else change_approved)"

definition report_message :: "change_owners \<Rightarrow> string" where
  "report_message co = ''one of '' @ repr_list (closest_owners co) @ '' needs to approve the change''"

text \<open>The outer loop: every change that is not approved gets a message in the report.\<close>

fun report_loop ::
  "(string \<times> change_owners) list \<Rightarrow> string list \<Rightarrow> (string \<times> string) list \<Rightarrow> (string \<times> string) list" where
  "report_loop [] lgtms rep = rep"
| "report_loop ((change_path, co) # rest) lgtms rep =
     report_loop rest lgtms
       (if \<not> change_approved_loop (owners co) lgtms False
        then dict_set change_path (report_message co) rep else rep)"

text \<open>
  \<open>body == report\<close>, for what \<open>json.loads\<close> returned and a dictionary of strings to
  strings: the body is a dictionary of as many keys, and each of its keys is a string
  under which the report has an equal string.
\<close>

fun body_item_in_report :: "(string \<times> string) list \<Rightarrow> pyval \<times> pyval \<Rightarrow> bool" where
  "body_item_in_report rep (PStr k, PStr v) = (map_of rep k = Some v)"
| "body_item_in_report rep kv = False"

fun body_equals_report :: "pyval \<Rightarrow> (string \<times> string) list \<Rightarrow> bool" where
  "body_equals_report (PDict kvs) rep =
     (length kvs = length rep \<and> list_all (body_item_in_report rep) kvs)"
| "body_equals_report v rep = False"

text \<open>The body of a comment without the fence around it.\<close>

definition json_body :: "comment \<Rightarrow> string" where
  "json_body c = rstrip (lstrip (body c) (fence @ [CHR 0x0A])) ([CHR 0x0A] @ fence)"

text \<open>
  The search for a comment of ours that already carries the report. \<open>loads\<close> is
  \<open>json.loads\<close>; only its \<open>JSONDecodeError\<close> is handled.
\<close>

fun report_posted_loop ::
  "(string \<Rightarrow> py_error + pyval) \<Rightarrow> string \<Rightarrow> int \<Rightarrow> (string \<times> string) list \<Rightarrow> comment list \<Rightarrow>
   py_error + bool" where
  "report_posted_loop loads bot_name top_at rep [] = Inr False"
| "report_posted_loop loads bot_name top_at rep (c # cs) =
     (if username c \<noteq> bot_name then report_posted_loop loads bot_name top_at rep cs
      else if created_at c < top_at then report_posted_loop loads bot_name top_at rep cs
      else
        (case loads (json_body c) of
           Inr b \<Rightarrow>
             (if body_equals_report b rep then Inr True
              else report_posted_loop loads bot_name top_at rep cs)
         | Inl e \<Rightarrow>
             (if e = JSONDecodeError then report_posted_loop loads bot_name top_at rep cs
              else Inl e)))"


definition markdown_json_report :: "(string \<times> string) list \<Rightarrow> string" where
  "markdown_json_report rep = fence @ [CHR 0x0A] @ json_dumps rep @ [CHR 0x0A] @ fence"

text \<open>
  \<open>get_approval_status\<close>; \<open>bot_name\<close> is \<open>gitlab.user.username\<close>. The report of the
  source is \<open>rep\<close> here.
\<close>

definition get_approval_status ::
  "set_iteration \<Rightarrow> (string \<Rightarrow> py_error + pyval) \<Rightarrow> string \<Rightarrow> owners_map \<Rightarrow> merge_request \<Rightarrow>
   py_error + approval_status" where
  "get_approval_status h loads bot_name owners_map mr =
     (case get_change_owners_map h owners_map mr of
        Inl e \<Rightarrow>
          (if e = OwnerNotFoundError then Inr \<lparr>approved = False, report = None\<rparr> else Inl e)
      | Inr change_owners_map \<Rightarrow>
          (let lgtms = get_lgtms mr;
               rep = report_loop change_owners_map lgtms []
           in if rep = [] then Inr \<lparr>approved = True, report = None\<rparr>
              else
                (case report_posted_loop loads bot_name (top_commit_created_at mr) rep (comments mr) of
                   Inl e \<Rightarrow> Inl e
                 | Inr True \<Rightarrow> Inr \<lparr>approved = False, report = None\<rparr>
                 | Inr False \<Rightarrow>
                     Inr \<lparr>approved = False, report = Some (markdown_json_report rep)\<rparr>)))"

definition has_approval_label :: "merge_request \<Rightarrow> bool" where
  "has_approval_label mr = (APPROVAL_LABEL \<in> set (labels mr))"

subsection \<open>run\<close>

text \<open>
  What the body of the loop of \<open>run\<close> does for one merge request, in order: the log
  entries (kept by their last words) and the calls that change the merge request.
\<close>

datatype effect =
    Log_info string
  | Add_label string
  | Remove_label string
  | Create_note string

definition run_status :: "bool \<Rightarrow> merge_request \<Rightarrow> approval_status \<Rightarrow> effect list" where
  "run_status dry_run mr st =
     (if approved st then
        (if has_approval_label mr then [Log_info ''- already approved'']
         else [Log_info ''- approving now''] @
              (if \<not> dry_run then [Add_label APPROVAL_LABEL] else []))
      else
        (if \<not> dry_run then
           (if has_approval_label mr
            then [Log_info ''- removing approval'', Remove_label APPROVAL_LABEL] else [])
         else []) @
        (case report st of
           Some r \<Rightarrow>
             [Log_info ''- publishing approval report''] @
             (if \<not> dry_run then [Remove_label APPROVAL_LABEL, Create_note r] else [])
         | None \<Rightarrow> [Log_info ''- not fully approved'']))"

definition run_mr ::
  "bool \<Rightarrow> set_iteration \<Rightarrow> (string \<Rightarrow> py_error + pyval) \<Rightarrow> string \<Rightarrow> owners_map \<Rightarrow> merge_request \<Rightarrow>
   py_error + effect list" where
  "run_mr dry_run h loads bot_name owners_map mr =
     (case get_approval_status h loads bot_name owners_map mr of
        Inl e \<Rightarrow> Inl e
      | Inr st \<Rightarrow> Inr (run_status dry_run mr st))"

text \<open>The directives among the effects: the calls, without the log entries.\<close>

fun is_directive :: "effect \<Rightarrow> bool" where
  "is_directive (Log_info m) = False"
| "is_directive e = True"

definition directives :: "effect list \<Rightarrow> effect list" where
  "directives es = filter is_directive es"

subsection \<open>Example data\<close>

text \<open>
  An owners map with one owned directory, a merge request that changes one file in it, a
  vote, the report for that file when nobody has voted, and a decoder that knows the
  serialized form of that report and rejects every other text.
\<close>

definition example_owners_map :: owners_map where
  "example_owners_map = [(''dir'', [''alice''])]"

definition example_mr :: merge_request where
  "example_mr = \<lparr>changed_paths = [''dir/file.txt''], comments = [], labels = [],
                  top_commit_created_at = 10\<rparr>"

definition lgtm_comment :: "string \<Rightarrow> int \<Rightarrow> comment" where
  "lgtm_comment u t = \<lparr>username = u, body = ''/lgtm'', created_at = t\<rparr>"

definition example_report :: "(string \<times> string) list" where
  "example_report =
     [(''dir/file.txt'', ''one of ['' @ [CHR 0x27] @ ''alice'' @ [CHR 0x27] @ ''] needs to approve the change'')]"


definition example_loads :: "string \<Rightarrow> py_error + pyval" where
  "example_loads s =
     (if s = json_dumps example_report
      then Inr (PDict (map (\<lambda>kv. (PStr (fst kv), PStr (snd kv))) example_report))
      else Inl JSONDecodeError)"






section \<open>Properties\<close>

subsection \<open>The owners queries\<close>

lemma startswith_prefix: "startswith s p = prefix p s"
  by (induction s p rule: startswith.induct) auto

lemma sorted_of_set_eq:
  assumes "set_iteration_ok h"
  shows "sorted_of_set h xs = sorted_list_of_set (set xs)"
proof -
  from assms have "set (h xs) = set xs" and "distinct (h xs)"
    by (simp_all add: set_iteration_ok_def)
  then show ?thesis
    unfolding sorted_of_set_def
    by (metis distinct_sort set_sort sorted_sort sorted_list_of_set.idem_if_sorted_distinct)
qed

lemma path_owners_loop_eq:
  "path_owners_loop m p acc =
     acc @ concat (map snd (filter (\<lambda>kv. startswith p (fst kv)) m))"
  by (induction m p acc rule: path_owners_loop.induct) auto

lemma candidates_loop_eq:
  "candidates_loop ks p acc = acc @ filter (startswith p) ks"
  by (induction ks p acc rule: candidates_loop.induct) auto

lemma max_len_from_mem: "max_len_from b xs \<in> set (b # xs)"
  by (induction b xs rule: max_len_from.induct) auto

lemma max_len_from_start: "length b \<le> length (max_len_from b xs)"
proof (induction b xs rule: max_len_from.induct)
  case (1 best)
  show ?case by simp
next
  case (2 best y ys)
  show ?case
  proof (cases "length best < length y")
    case True
    with 2 have "length y \<le> length (max_len_from y ys)" by simp
    with True show ?thesis by simp
  next
    case False
    with 2 show ?thesis by simp
  qed
qed

lemma max_len_from_rest: "x \<in> set xs \<Longrightarrow> length x \<le> length (max_len_from b xs)"
proof (induction b xs rule: max_len_from.induct)
  case (1 best)
  then show ?case by simp
next
  case (2 best y ys)
  let ?b = "if length best < length y then y else best"
  have start: "length ?b \<le> length (max_len_from ?b ys)"
    by (rule max_len_from_start)
  show ?case
  proof (cases "x = y")
    case True
    have "length y \<le> length ?b" by simp
    with start True show ?thesis by simp
  next
    case False
    with 2 have "x \<in> set ys" by simp
    with 2 show ?thesis by simp
  qed
qed

lemma max_len_from_ge: "x \<in> set (b # xs) \<Longrightarrow> length x \<le> length (max_len_from b xs)"
  using max_len_from_start [of b xs] max_len_from_rest [of x xs b] by auto

lemma get_all_owners_eq:
  assumes "set_iteration_ok h"
  shows "get_all_owners h m p =
     (if (\<Union>kv \<in> {kv \<in> set m. prefix (fst kv) p}. set (snd kv)) = {} then Inl KeyError
      else Inr (sorted_list_of_set (\<Union>kv \<in> {kv \<in> set m. prefix (fst kv) p}. set (snd kv))))"
proof -
  let ?ins = "concat (map snd (filter (\<lambda>kv. startswith p (fst kv)) m))"
  have s: "set ?ins = (\<Union>kv \<in> {kv \<in> set m. prefix (fst kv) p}. set (snd kv))"
    by (auto simp: startswith_prefix)
  have e: "(?ins = []) = (set ?ins = {})" by simp
  show ?thesis
    unfolding get_all_owners_def Let_def path_owners_loop_eq append_Nil
      sorted_of_set_eq [OF assms] e s ..
qed

lemma get_closest_owners_none:
  "(\<forall>k \<in> fst ` set m. \<not> prefix k p) \<Longrightarrow> get_closest_owners h m p = Inl KeyError"
  by (simp add: get_closest_owners_def candidates_loop_eq startswith_prefix filter_empty_conv
      split: list.splits)

lemma get_closest_owners_some:
  assumes "set_iteration_ok h" and "\<exists>k \<in> fst ` set m. prefix k p"
  shows "\<exists>k approvers. map_of m k = Some approvers \<and> prefix k p \<and>
           (\<forall>k' \<in> fst ` set m. prefix k' p \<longrightarrow> length k' \<le> length k) \<and>
           get_closest_owners h m p = Inr (sorted_list_of_set (set approvers))"
proof -
  let ?cands = "filter (startswith p) (map fst m)"
  from assms(2) have "?cands \<noteq> []"
    by (auto simp: filter_empty_conv startswith_prefix)
  then obtain c cs where cs: "?cands = c # cs" by (cases ?cands) auto
  let ?e = "max_len_from c cs"
  have mem: "?e \<in> set ?cands" using max_len_from_mem [of c cs] cs by simp
  then have pre: "prefix ?e p" and key: "?e \<in> fst ` set m"
    by (auto simp: startswith_prefix)
  from key obtain approvers where look: "map_of m ?e = Some approvers"
    by (metis domD dom_map_of_conv_image_fst)
  have maxi: "\<forall>k' \<in> fst ` set m. prefix k' p \<longrightarrow> length k' \<le> length ?e"
  proof (intro ballI impI)
    fix k' assume "k' \<in> fst ` set m" and "prefix k' p"
    then have "k' \<in> set (c # cs)" unfolding cs [symmetric] by (auto simp: startswith_prefix)
    then show "length k' \<le> length ?e" by (rule max_len_from_ge)
  qed
  have "get_closest_owners h m p = Inr (sorted_list_of_set (set approvers))"
    by (simp add: get_closest_owners_def candidates_loop_eq cs look sorted_of_set_eq [OF assms(1)])
  with look pre maxi show ?thesis by blast
qed


lemma set_iteration_ok_remdups: "set_iteration_ok remdups"
  by (simp add: set_iteration_ok_def)

lemma set_iteration_ok_rev_remdups: "set_iteration_ok (\<lambda>xs. rev (remdups xs))"
  by (simp add: set_iteration_ok_def)

text \<open>
  Claim C5, as the code has it. \<open>get_all_owners\<close> returns the sorted union of the owner
  lists of every key that is a string prefix of the path when that union is not empty,
  and raises \<open>KeyError\<close> when it is empty; when no key is a prefix of the path, both
  \<open>get_all_owners\<close> and \<open>get_closest_owners\<close> raise \<open>KeyError\<close>.
\<close>

theorem all_owners_union_or_key_error:
  assumes "set_iteration_ok h"
  shows "get_all_owners h m p =
           (if (\<Union>kv \<in> {kv \<in> set m. prefix (fst kv) p}. set (snd kv)) = {} then Inl KeyError
            else Inr (sorted_list_of_set (\<Union>kv \<in> {kv \<in> set m. prefix (fst kv) p}. set (snd kv))))
       \<and> ((\<forall>k \<in> fst ` set m. \<not> prefix k p) \<longrightarrow>
            get_all_owners h m p = Inl KeyError \<and> get_closest_owners h m p = Inl KeyError)"
proof (intro conjI impI)
  show "get_all_owners h m p =
           (if (\<Union>kv \<in> {kv \<in> set m. prefix (fst kv) p}. set (snd kv)) = {} then Inl KeyError
            else Inr (sorted_list_of_set (\<Union>kv \<in> {kv \<in> set m. prefix (fst kv) p}. set (snd kv))))"
    by (rule get_all_owners_eq [OF assms])
next
  assume none: "\<forall>k \<in> fst ` set m. \<not> prefix k p"
  then have "(\<Union>kv \<in> {kv \<in> set m. prefix (fst kv) p}. set (snd kv)) = {}" by auto
  then show "get_all_owners h m p = Inl KeyError"
    by (simp add: get_all_owners_eq [OF assms])
next
  assume none: "\<forall>k \<in> fst ` set m. \<not> prefix k p"
  then show "get_closest_owners h m p = Inl KeyError"
    by (rule get_closest_owners_none)
qed

theorem all_owners_union_or_key_error_witness:
  "set_iteration_ok remdups
   \<and> get_all_owners remdups [(''dir'', [''bob'', ''alice''])] ''dir/x'' = Inr [''alice'', ''bob'']
   \<and> \<not> prefix ''dir'' ''other''
   \<and> get_all_owners remdups [(''dir'', [''bob'', ''alice''])] ''other'' = Inl KeyError
   \<and> get_closest_owners remdups [(''dir'', [''bob'', ''alice''])] ''other'' = Inl KeyError"
proof -
  have ok: "set_iteration_ok remdups" by (rule set_iteration_ok_remdups)
  have np: "\<not> prefix ''dir'' ''other''" by simp
  have u: "(\<Union>kv \<in> {kv \<in> set [(''dir'', [''bob'', ''alice''])]. prefix (fst kv) ''dir/x''}. set (snd kv))
             = {''alice'', ''bob''}"
    by auto
  have srt: "sorted_list_of_set {''alice'', ''bob''} = [''alice'', ''bob'']"
    by (simp add: sorted_list_of_set.fold_insort_key.remove insort_key.simps)
  have a: "get_all_owners remdups [(''dir'', [''bob'', ''alice''])] ''dir/x'' = Inr [''alice'', ''bob'']"
    using all_owners_union_or_key_error [OF ok, of "[(''dir'', [''bob'', ''alice''])]" "''dir/x''"]
    unfolding u srt by simp
  have b: "get_all_owners remdups [(''dir'', [''bob'', ''alice''])] ''other'' = Inl KeyError
           \<and> get_closest_owners remdups [(''dir'', [''bob'', ''alice''])] ''other'' = Inl KeyError"
    using all_owners_union_or_key_error [OF ok, of "[(''dir'', [''bob'', ''alice''])]" "''other''"] np
    by simp
  from ok np a b show ?thesis by blast
qed

text \<open>
  Claim C5 as stated fails where a key is a prefix of the path and its owner list is
  empty: \<open>get_all_owners\<close> raises instead of returning the (empty) union, and
  \<open>get_closest_owners\<close> returns.
\<close>

theorem all_owners_empty_union_counterexample:
  "prefix ''dir'' ''dir/x''
   \<and> get_all_owners remdups [(''dir'', [])] ''dir/x'' = Inl KeyError
   \<and> get_closest_owners remdups [(''dir'', [])] ''dir/x'' = Inr []"
  by (simp add: get_all_owners_def get_closest_owners_def sorted_of_set_def)

text \<open>
  Claim C6. When some key is a prefix of the path, \<open>get_closest_owners\<close> returns the
  sorted owner set of a key that is a prefix of the path and at least as long as every
  other such key.
\<close>

theorem closest_owners_longest_prefix:
  assumes "set_iteration_ok h" and "\<exists>k \<in> fst ` set m. prefix k p"
  shows "\<exists>k approvers. (k, approvers) \<in> set m \<and> map_of m k = Some approvers \<and> prefix k p \<and>
           (\<forall>k' \<in> fst ` set m. prefix k' p \<longrightarrow> length k' \<le> length k) \<and>
           get_closest_owners h m p = Inr (sorted_list_of_set (set approvers))"
proof -
  from get_closest_owners_some [OF assms]
  obtain k approvers where
    "map_of m k = Some approvers" "prefix k p"
    "\<forall>k' \<in> fst ` set m. prefix k' p \<longrightarrow> length k' \<le> length k"
    "get_closest_owners h m p = Inr (sorted_list_of_set (set approvers))"
    by blast
  moreover from this have "(k, approvers) \<in> set m" by (simp add: map_of_SomeD)
  ultimately show ?thesis by blast
qed

theorem closest_owners_longest_prefix_witness:
  "set_iteration_ok remdups
   \<and> prefix ''dir'' ''dir/sub/x'' \<and> prefix ''dir/sub'' ''dir/sub/x''
   \<and> get_closest_owners remdups
        [(''dir'', [''bob'', ''alice'']), (''dir/sub'', [''dave'', ''carol'', ''dave''])] ''dir/sub/x''
      = Inr [''carol'', ''dave'']"
proof -
  let ?m = "[(''dir'', [''bob'', ''alice'']), (''dir/sub'', [''dave'', ''carol'', ''dave''])]"
  have ok: "set_iteration_ok remdups" by (rule set_iteration_ok_remdups)
  have pre: "\<exists>k \<in> fst ` set ?m. prefix k ''dir/sub/x''" by simp
  from closest_owners_longest_prefix [OF ok pre]
  obtain k approvers where ka: "(k, approvers) \<in> set ?m" "prefix k ''dir/sub/x''"
    "\<forall>k' \<in> fst ` set ?m. prefix k' ''dir/sub/x'' \<longrightarrow> length k' \<le> length k"
    "get_closest_owners remdups ?m ''dir/sub/x'' = Inr (sorted_list_of_set (set approvers))"
    by blast
  from ka(3) have "length ''dir/sub'' \<le> length k" by simp
  with ka(1) have "approvers = [''dave'', ''carol'', ''dave'']" by auto
  moreover have "sorted_list_of_set (set [''dave'', ''carol'', ''dave'']) = [''carol'', ''dave'']"
    unfolding sorted_list_of_set_sort_remdups by simp
  ultimately have "get_closest_owners remdups ?m ''dir/sub/x'' = Inr [''carol'', ''dave'']"
    using ka(4) by simp
  with ok show ?thesis by simp
qed

text \<open>
  Claim C10. Where both queries return, every closest owner is among all the owners, and
  both lists are sorted and have no duplicates.
\<close>

theorem closest_subset_all_sorted_distinct:
  assumes "set_iteration_ok h"
    and "get_all_owners h m p = Inr all_owners"
    and "get_closest_owners h m p = Inr closest"
  shows "set closest \<subseteq> set all_owners \<and> sorted all_owners \<and> distinct all_owners \<and>
         sorted closest \<and> distinct closest"
proof -
  let ?U = "\<Union>kv \<in> {kv \<in> set m. prefix (fst kv) p}. set (snd kv)"
  have fin: "finite ?U" by simp
  from assms(2) have a: "all_owners = sorted_list_of_set ?U"
    by (simp add: get_all_owners_eq [OF assms(1)] split: if_splits)
  have "\<exists>k \<in> fst ` set m. prefix k p"
  proof (rule ccontr)
    assume "\<not> (\<exists>k \<in> fst ` set m. prefix k p)"
    then have "get_closest_owners h m p = Inl KeyError"
      by (intro get_closest_owners_none) blast
    with assms(3) show False by simp
  qed
  from get_closest_owners_some [OF assms(1) this] assms(3)
  obtain k approvers where look: "map_of m k = Some approvers" and pre: "prefix k p"
    and c: "closest = sorted_list_of_set (set approvers)"
    by auto
  from look have "(k, approvers) \<in> set m" by (rule map_of_SomeD)
  with pre have "set approvers \<subseteq> ?U" by force
  with a c fin show ?thesis by simp
qed

theorem closest_subset_all_sorted_distinct_witness:
  "set_iteration_ok remdups
   \<and> get_all_owners remdups
        [(''dir'', [''bob'', ''alice'']), (''dir/sub'', [''dave'', ''carol'', ''dave''])] ''dir/sub/x''
      = Inr [''alice'', ''bob'', ''carol'', ''dave'']
   \<and> get_closest_owners remdups
        [(''dir'', [''bob'', ''alice'']), (''dir/sub'', [''dave'', ''carol'', ''dave''])] ''dir/sub/x''
      = Inr [''carol'', ''dave'']
   \<and> set [''carol'', ''dave''] \<subseteq> set [''alice'', ''bob'', ''carol'', ''dave'']
   \<and> sorted [''alice'', ''bob'', ''carol'', ''dave''] \<and> distinct [''alice'', ''bob'', ''carol'', ''dave'']
   \<and> sorted [''carol'', ''dave''] \<and> distinct [''carol'', ''dave'']"
proof -
  let ?m = "[(''dir'', [''bob'', ''alice'']), (''dir/sub'', [''dave'', ''carol'', ''dave''])]"
  have ok: "set_iteration_ok remdups" by (rule set_iteration_ok_remdups)
  have a: "get_all_owners remdups ?m ''dir/sub/x'' = Inr [''alice'', ''bob'', ''carol'', ''dave'']"
    by (simp add: get_all_owners_def sorted_of_set_def insort_key.simps)
  have c: "get_closest_owners remdups ?m ''dir/sub/x'' = Inr [''carol'', ''dave'']"
    by (simp add: get_closest_owners_def sorted_of_set_def insort_key.simps)
  from closest_subset_all_sorted_distinct [OF ok a c] ok a c show ?thesis by blast
qed

subsection \<open>Votes\<close>

lemma lgtms_loop_eq:
  "lgtms_loop t cs acc =
     acc @ map username (filter (\<lambda>c. body c = ''/lgtm'' \<and> t \<le> created_at c) cs)"
  by (induction t cs acc rule: lgtms_loop.induct) auto

lemma report_posted_loop_stale:
  "created_at v < t \<Longrightarrow>
   report_posted_loop loads b t rep (cs1 @ v # cs2) = report_posted_loop loads b t rep (cs1 @ cs2)"
  by (induction cs1) (auto split: sum.splits)

text \<open>
  Claim C4. A vote cast strictly before the creation time of the top commit is not
  counted: with or without it the voters are the same, and so is the approval status;
  a user all of whose votes are that old is not among the voters.
\<close>

theorem stale_vote_never_counts:
  assumes "created_at v < top_commit_created_at mr"
    and "comments mr = cs1 @ v # cs2"
  shows "get_lgtms mr = get_lgtms (mr\<lparr>comments := cs1 @ cs2\<rparr>)
       \<and> get_approval_status h loads bot_name owners_map mr =
           get_approval_status h loads bot_name owners_map (mr\<lparr>comments := cs1 @ cs2\<rparr>)
       \<and> ((\<forall>c \<in> set (cs1 @ cs2). username c = username v \<and> body c = ''/lgtm''
              \<longrightarrow> created_at c < top_commit_created_at mr)
           \<longrightarrow> username v \<notin> set (get_lgtms mr))"
proof (intro conjI impI)
  show "get_lgtms mr = get_lgtms (mr\<lparr>comments := cs1 @ cs2\<rparr>)"
    using assms by (simp add: get_lgtms_def lgtms_loop_eq)
  then have l: "get_lgtms (mr\<lparr>comments := cs1 @ cs2\<rparr>) = get_lgtms mr" by simp
  have c: "get_change_owners_map h owners_map (mr\<lparr>comments := cs1 @ cs2\<rparr>) =
           get_change_owners_map h owners_map mr"
    by (simp add: get_change_owners_map_def)
  have p: "report_posted_loop loads bot_name (top_commit_created_at mr) rep (cs1 @ cs2) =
           report_posted_loop loads bot_name (top_commit_created_at mr) rep (comments mr)" for rep
    unfolding assms(2) by (rule report_posted_loop_stale [OF assms(1), symmetric])
  show "get_approval_status h loads bot_name owners_map mr =
        get_approval_status h loads bot_name owners_map (mr\<lparr>comments := cs1 @ cs2\<rparr>)"
    by (cases "get_change_owners_map h owners_map mr")
       (simp_all add: get_approval_status_def c l p Let_def)
next
  assume "\<forall>c \<in> set (cs1 @ cs2). username c = username v \<and> body c = ''/lgtm''
              \<longrightarrow> created_at c < top_commit_created_at mr"
  with assms show "username v \<notin> set (get_lgtms mr)"
    by (auto simp: get_lgtms_def lgtms_loop_eq)
qed

theorem stale_vote_never_counts_witness:
  "created_at (lgtm_comment ''alice'' 9)
     < top_commit_created_at
         (example_mr\<lparr>comments := [lgtm_comment ''alice'' 9, lgtm_comment ''alice'' 8,
                                   lgtm_comment ''bob'' 11]\<rparr>)
   \<and> get_all_owners remdups example_owners_map ''dir/file.txt'' = Inr [''alice'']
   \<and> get_lgtms (example_mr\<lparr>comments := [lgtm_comment ''alice'' 9, lgtm_comment ''alice'' 8,
                                   lgtm_comment ''bob'' 11]\<rparr>) = [''bob'']
   \<and> get_lgtms (example_mr\<lparr>comments := [lgtm_comment ''alice'' 8, lgtm_comment ''bob'' 11]\<rparr>)
       = [''bob'']
   \<and> get_approval_status remdups example_loads ''bot'' example_owners_map
         (example_mr\<lparr>comments := [lgtm_comment ''alice'' 9, lgtm_comment ''alice'' 8,
                                   lgtm_comment ''bob'' 11]\<rparr>)
       = get_approval_status remdups example_loads ''bot'' example_owners_map
           (example_mr\<lparr>comments := [lgtm_comment ''alice'' 8, lgtm_comment ''bob'' 11]\<rparr>)
   \<and> ''alice'' \<notin> set (get_lgtms (example_mr\<lparr>comments := [lgtm_comment ''alice'' 9,
                                   lgtm_comment ''alice'' 8, lgtm_comment ''bob'' 11]\<rparr>))"
proof -
  let ?v = "lgtm_comment ''alice'' 9"
  let ?cs = "[lgtm_comment ''alice'' 8, lgtm_comment ''bob'' 11]"
  let ?mr = "example_mr\<lparr>comments := ?v # ?cs\<rparr>"
  have stale: "created_at ?v < top_commit_created_at ?mr"
    by (simp add: lgtm_comment_def example_mr_def)
  have cs: "comments ?mr = [] @ ?v # ?cs" by simp
  have own: "get_all_owners remdups example_owners_map ''dir/file.txt'' = Inr [''alice'']"
    by (simp add: get_all_owners_def example_owners_map_def sorted_of_set_def)
  have upd: "?mr\<lparr>comments := [] @ ?cs\<rparr> = example_mr\<lparr>comments := ?cs\<rparr>" by simp
  have others: "\<forall>c \<in> set ([] @ ?cs). username c = username ?v \<and> body c = ''/lgtm''
              \<longrightarrow> created_at c < top_commit_created_at ?mr"
    by (simp add: lgtm_comment_def example_mr_def)
  have u: "username ?v = ''alice''" by (simp add: lgtm_comment_def)
  have l1: "get_lgtms ?mr = [''bob'']"
    by (simp add: get_lgtms_def example_mr_def lgtm_comment_def)
  have l2: "get_lgtms (example_mr\<lparr>comments := ?cs\<rparr>) = [''bob'']"
    by (simp add: get_lgtms_def example_mr_def lgtm_comment_def)
  from stale_vote_never_counts [OF stale cs, of remdups example_loads "''bot''" example_owners_map]
    others
  have "get_approval_status remdups example_loads ''bot'' example_owners_map ?mr =
          get_approval_status remdups example_loads ''bot'' example_owners_map
            (example_mr\<lparr>comments := ?cs\<rparr>)
        \<and> ''alice'' \<notin> set (get_lgtms ?mr)"
    unfolding upd u by blast
  with stale own l1 l2 show ?thesis by blast
qed

subsection \<open>Approval\<close>

lemma dict_set_keys: "fst ` set (dict_set k v d) = insert k (fst ` set d)"
  by (induction d) auto

lemma dict_set_subset: "set (dict_set k v d) \<subseteq> insert (k, v) (set d)"
  by (induction d) auto

lemma change_approved_loop_eq:
  "change_approved_loop os lgtms b = (b \<or> set os \<inter> set lgtms \<noteq> {})"
  by (induction os lgtms b rule: change_approved_loop.induct) auto

lemma report_loop_keys:
  "fst ` set (report_loop com lgtms acc) =
     fst ` set acc \<union> {p. \<exists>co. (p, co) \<in> set com \<and> set (owners co) \<inter> set lgtms = {}}"
proof (induction com lgtms acc rule: report_loop.induct)
  case (1 lgtms rep)
  show ?case by simp
next
  case (2 change_path co rest lgtms rep)
  show ?case
    unfolding report_loop.simps "2.IH"
    by (auto simp: change_approved_loop_eq dict_set_keys)
qed

lemma get_all_owners_error: "get_all_owners h m p = Inl e \<Longrightarrow> e = KeyError"
  by (simp add: get_all_owners_def Let_def split: if_splits)

lemma get_closest_owners_error: "get_closest_owners h m p = Inl e \<Longrightarrow> e = KeyError"
  by (simp add: get_closest_owners_def Let_def split: list.splits option.splits)

lemma path_change_owners_error: "path_change_owners h m p = Inl e \<Longrightarrow> e = KeyError"
  by (auto simp: path_change_owners_def split: sum.splits
      dest: get_all_owners_error get_closest_owners_error)

lemma path_change_owners_Inr:
  "path_change_owners h m p = Inr co \<longleftrightarrow>
     get_all_owners h m p = Inr (owners co) \<and> get_closest_owners h m p = Inr (closest_owners co)"
  by (cases co) (auto simp: path_change_owners_def split: sum.splits)

lemma change_owners_loop_fails:
  "\<exists>p \<in> set ps. \<exists>e. path_change_owners h m p = Inl e \<Longrightarrow>
   change_owners_loop h m ps acc = Inl OwnerNotFoundError"
proof (induction ps arbitrary: acc)
  case Nil
  then show ?case by simp
next
  case (Cons p ps)
  show ?case
  proof (cases "path_change_owners h m p")
    case (Inl e)
    then have "e = KeyError" by (rule path_change_owners_error)
    with Inl show ?thesis by simp
  next
    case (Inr co)
    with Cons.prems have "\<exists>p \<in> set ps. \<exists>e. path_change_owners h m p = Inl e" by auto
    with Inr show ?thesis by (simp add: Cons.IH)
  qed
qed

lemma change_owners_loop_ok:
  "change_owners_loop h m ps acc = Inr com \<Longrightarrow>
   \<forall>pc \<in> set acc. path_change_owners h m (fst pc) = Inr (snd pc) \<Longrightarrow>
   (\<forall>pc \<in> set com. path_change_owners h m (fst pc) = Inr (snd pc)) \<and>
   fst ` set com = fst ` set acc \<union> set ps"
proof (induction ps arbitrary: acc)
  case Nil
  then show ?case by simp
next
  case (Cons p ps)
  from Cons.prems(1) obtain co where co: "path_change_owners h m p = Inr co"
    and rest: "change_owners_loop h m ps (dict_set p co acc) = Inr com"
    by (auto split: sum.splits)
  have "\<forall>pc \<in> set (dict_set p co acc). path_change_owners h m (fst pc) = Inr (snd pc)"
    using dict_set_subset [of p co acc] Cons.prems(2) co by auto
  from Cons.IH [OF rest this] show ?case by (auto simp: dict_set_keys)
qed

lemma get_change_owners_map_ok:
  assumes "get_change_owners_map h m mr = Inr com"
  shows "(\<forall>pc \<in> set com. path_change_owners h m (fst pc) = Inr (snd pc)) \<and>
         fst ` set com = set (changed_paths mr)"
  using change_owners_loop_ok [of h m "changed_paths mr" "[]" com] assms
  by (simp add: get_change_owners_map_def)

text \<open>
  Claim C7. When every changed path resolves, a changed path is left out of the report
  exactly when one of all its owners is among the voters, and the status is approved
  exactly when the report is empty.
\<close>

theorem approved_iff_owner_voted:
  assumes "get_change_owners_map h owners_map mr = Inr com"
  shows "(\<forall>p \<in> set (changed_paths mr). \<exists>all_owners.
            get_all_owners h owners_map p = Inr all_owners \<and>
            (p \<notin> fst ` set (report_loop com (get_lgtms mr) []) \<longleftrightarrow>
             set all_owners \<inter> set (get_lgtms mr) \<noteq> {}))
       \<and> (\<forall>st. get_approval_status h loads bot_name owners_map mr = Inr st \<longrightarrow>
            (approved st \<longleftrightarrow> report_loop com (get_lgtms mr) [] = []))
       \<and> (report_loop com (get_lgtms mr) [] = [] \<longrightarrow>
            get_approval_status h loads bot_name owners_map mr =
              Inr \<lparr>approved = True, report = None\<rparr>)"
proof (intro conjI ballI allI impI)
  fix p assume p: "p \<in> set (changed_paths mr)"
  from get_change_owners_map_ok [OF assms]
  have inv: "\<forall>pc \<in> set com. path_change_owners h owners_map (fst pc) = Inr (snd pc)"
    and keys: "fst ` set com = set (changed_paths mr)" by simp_all
  from p keys obtain co where co: "(p, co) \<in> set com" by force
  with inv have r: "path_change_owners h owners_map p = Inr co" by force
  then have a: "get_all_owners h owners_map p = Inr (owners co)"
    by (simp add: path_change_owners_Inr)
  have same: "\<forall>co'. (p, co') \<in> set com \<longrightarrow> co' = co"
    using inv r by force
  have "(p \<in> fst ` set (report_loop com (get_lgtms mr) [])) =
        (\<exists>co'. (p, co') \<in> set com \<and> set (owners co') \<inter> set (get_lgtms mr) = {})"
    by (simp add: report_loop_keys)
  also have "\<dots> = (set (owners co) \<inter> set (get_lgtms mr) = {})"
    using co same by blast
  finally have "p \<notin> fst ` set (report_loop com (get_lgtms mr) []) \<longleftrightarrow>
        set (owners co) \<inter> set (get_lgtms mr) \<noteq> {}"
    by simp
  with a show "\<exists>all_owners. get_all_owners h owners_map p = Inr all_owners \<and>
            (p \<notin> fst ` set (report_loop com (get_lgtms mr) []) \<longleftrightarrow>
             set all_owners \<inter> set (get_lgtms mr) \<noteq> {})" by blast
next
  fix st assume "get_approval_status h loads bot_name owners_map mr = Inr st"
  with assms show "approved st \<longleftrightarrow> report_loop com (get_lgtms mr) [] = []"
    by (cases "report_loop com (get_lgtms mr) [] = []")
       (auto simp: get_approval_status_def Let_def split: sum.splits bool.splits)
next
  assume "report_loop com (get_lgtms mr) [] = []"
  with assms show "get_approval_status h loads bot_name owners_map mr =
      Inr \<lparr>approved = True, report = None\<rparr>"
    by (simp add: get_approval_status_def)
qed


theorem approved_iff_owner_voted_witness:
  "get_change_owners_map remdups example_owners_map
      (example_mr\<lparr>comments := [lgtm_comment ''alice'' 10]\<rparr>)
     = Inr [(''dir/file.txt'', \<lparr>owners = [''alice''], closest_owners = [''alice'']\<rparr>)]
   \<and> get_all_owners remdups example_owners_map ''dir/file.txt'' = Inr [''alice'']
   \<and> get_lgtms (example_mr\<lparr>comments := [lgtm_comment ''alice'' 10]\<rparr>) = [''alice'']
   \<and> get_approval_status remdups example_loads ''bot'' example_owners_map
        (example_mr\<lparr>comments := [lgtm_comment ''alice'' 10]\<rparr>)
       = Inr \<lparr>approved = True, report = None\<rparr>"
proof -
  let ?mr = "example_mr\<lparr>comments := [lgtm_comment ''alice'' 10]\<rparr>"
  let ?com = "[(''dir/file.txt'', \<lparr>owners = [''alice''], closest_owners = [''alice'']\<rparr>)]"
  have own: "get_all_owners remdups example_owners_map ''dir/file.txt'' = Inr [''alice'']"
    by (simp add: get_all_owners_def example_owners_map_def sorted_of_set_def)
  have clo: "get_closest_owners remdups example_owners_map ''dir/file.txt'' = Inr [''alice'']"
    by (simp add: get_closest_owners_def example_owners_map_def sorted_of_set_def)
  have com: "get_change_owners_map remdups example_owners_map ?mr = Inr ?com"
    by (simp add: get_change_owners_map_def example_mr_def path_change_owners_def own clo)
  have lg: "get_lgtms ?mr = [''alice'']"
    by (simp add: get_lgtms_def example_mr_def lgtm_comment_def)
  have rep: "report_loop ?com (get_lgtms ?mr) [] = []"
    by (simp add: lg)
  from approved_iff_owner_voted [OF com, of example_loads "''bot''"] rep
  have "get_approval_status remdups example_loads ''bot'' example_owners_map ?mr
       = Inr \<lparr>approved = True, report = None\<rparr>" by blast
  with com own lg show ?thesis by simp
qed

subsection \<open>Unresolvable paths\<close>

lemma path_change_owners_fails:
  "get_all_owners h m p = Inl KeyError \<or> get_closest_owners h m p = Inl KeyError \<Longrightarrow>
   \<exists>e. path_change_owners h m p = Inl e"
  by (auto simp: path_change_owners_def split: sum.splits)

lemma directives_run_status_no_report:
  "directives (run_status dry_run mr \<lparr>approved = False, report = None\<rparr>) =
     (if \<not> dry_run \<and> has_approval_label mr then [Remove_label APPROVAL_LABEL] else [])"
  by (simp add: run_status_def directives_def)

text \<open>
  Claim C1, as the code has it. When a changed path has no owner, the status is the one
  of a merge request that is not approved and has nothing new to report; no note is
  created and no label is added, and the approval label is removed when the merge
  request has it and the run is not a dry run.
\<close>

theorem unresolvable_path_not_approved:
  assumes "p \<in> set (changed_paths mr)"
    and "get_all_owners h owners_map p = Inl KeyError \<or>
         get_closest_owners h owners_map p = Inl KeyError"
  shows "get_approval_status h loads bot_name owners_map mr =
           Inr \<lparr>approved = False, report = None\<rparr>
       \<and> (\<exists>es. run_mr dry_run h loads bot_name owners_map mr = Inr es \<and>
              directives es =
                (if \<not> dry_run \<and> has_approval_label mr then [Remove_label APPROVAL_LABEL]
                 else []))"
proof -
  from assms(2) have "\<exists>e. path_change_owners h owners_map p = Inl e"
    by (rule path_change_owners_fails)
  with assms(1) have "get_change_owners_map h owners_map mr = Inl OwnerNotFoundError"
    unfolding get_change_owners_map_def by (intro change_owners_loop_fails) blast
  then have st: "get_approval_status h loads bot_name owners_map mr =
           Inr \<lparr>approved = False, report = None\<rparr>"
    by (simp add: get_approval_status_def)
  then have "run_mr dry_run h loads bot_name owners_map mr =
      Inr (run_status dry_run mr \<lparr>approved = False, report = None\<rparr>)"
    by (simp add: run_mr_def)
  with st directives_run_status_no_report [of dry_run mr] show ?thesis by simp
qed

theorem unresolvable_path_not_approved_witness:
  "''other.txt'' \<in> set (changed_paths (example_mr\<lparr>changed_paths := [''dir/file.txt'', ''other.txt'']\<rparr>))
   \<and> get_all_owners remdups example_owners_map ''other.txt'' = Inl KeyError
   \<and> get_approval_status remdups example_loads ''bot'' example_owners_map
        (example_mr\<lparr>changed_paths := [''dir/file.txt'', ''other.txt'']\<rparr>)
       = Inr \<lparr>approved = False, report = None\<rparr>
   \<and> (\<exists>es. run_mr False remdups example_loads ''bot'' example_owners_map
              (example_mr\<lparr>changed_paths := [''dir/file.txt'', ''other.txt'']\<rparr>) = Inr es
            \<and> directives es = [])"
proof -
  let ?mr = "example_mr\<lparr>changed_paths := [''dir/file.txt'', ''other.txt'']\<rparr>"
  have p: "''other.txt'' \<in> set (changed_paths ?mr)" by simp
  have a: "get_all_owners remdups example_owners_map ''other.txt'' = Inl KeyError"
    by (simp add: get_all_owners_def example_owners_map_def)
  have l: "\<not> has_approval_label ?mr"
    by (simp add: has_approval_label_def example_mr_def APPROVAL_LABEL_def)
  from unresolvable_path_not_approved [OF p disjI1 [OF a], of example_loads "''bot''" False] p a l
  show ?thesis by simp
qed

text \<open>
  Claim C1 as stated fails where the merge request carries the approval label: the run
  removes the label although a changed path has no owner.
\<close>

theorem unresolvable_path_label_removed_counterexample:
  "get_all_owners remdups example_owners_map ''other.txt'' = Inl KeyError
   \<and> run_mr False remdups example_loads ''bot'' example_owners_map
        (example_mr\<lparr>changed_paths := [''other.txt''], labels := [''approved'']\<rparr>)
      = Inr [Log_info ''- removing approval'', Remove_label ''approved'',
             Log_info ''- not fully approved'']
   \<and> directives [Log_info ''- removing approval'', Remove_label ''approved'',
             Log_info ''- not fully approved''] = [Remove_label ''approved'']"
  by (simp add: get_all_owners_def example_owners_map_def example_mr_def run_mr_def
      get_approval_status_def get_change_owners_map_def path_change_owners_def
      run_status_def has_approval_label_def APPROVAL_LABEL_def directives_def)

subsection \<open>Independence of the iteration order of sets\<close>

lemma sorted_of_set_indep:
  "set_iteration_ok h1 \<Longrightarrow> set_iteration_ok h2 \<Longrightarrow> sorted_of_set h1 xs = sorted_of_set h2 xs"
  by (simp add: sorted_of_set_eq)

lemma path_change_owners_indep:
  assumes "set_iteration_ok h1" and "set_iteration_ok h2"
  shows "path_change_owners h1 m p = path_change_owners h2 m p"
proof -
  have a: "get_all_owners h1 m p = get_all_owners h2 m p"
    by (simp add: get_all_owners_def Let_def sorted_of_set_indep [OF assms])
  have c: "get_closest_owners h1 m p = get_closest_owners h2 m p"
    by (simp add: get_closest_owners_def Let_def sorted_of_set_indep [OF assms]
        cong: list.case_cong option.case_cong)
  show ?thesis unfolding path_change_owners_def a c ..
qed

lemma change_owners_loop_indep:
  assumes "set_iteration_ok h1" and "set_iteration_ok h2"
  shows "change_owners_loop h1 m ps acc = change_owners_loop h2 m ps acc"
  by (induction ps arbitrary: acc)
     (simp_all add: path_change_owners_indep [OF assms] cong: sum.case_cong)

lemma get_approval_status_indep:
  assumes "set_iteration_ok h1" and "set_iteration_ok h2"
  shows "get_approval_status h1 loads b m mr = get_approval_status h2 loads b m mr"
  by (simp add: get_approval_status_def get_change_owners_map_def
      change_owners_loop_indep [OF assms])

text \<open>
  Claim C9. The effects of the run on a merge request, and so its directives, are a
  function of the inputs alone: the order in which the interpreter iterates over sets,
  the one thing the language leaves open, does not reach them.
\<close>

theorem evaluation_deterministic:
  assumes "set_iteration_ok h1" and "set_iteration_ok h2"
  shows "get_approval_status h1 loads bot_name owners_map mr =
           get_approval_status h2 loads bot_name owners_map mr
       \<and> run_mr dry_run h1 loads bot_name owners_map mr =
           run_mr dry_run h2 loads bot_name owners_map mr"
  by (simp add: run_mr_def get_approval_status_indep [OF assms])

theorem evaluation_deterministic_witness:
  "set_iteration_ok remdups \<and> set_iteration_ok (\<lambda>xs. rev (remdups xs))
   \<and> remdups [''bob'', ''alice''] \<noteq> rev (remdups [''bob'', ''alice''])
   \<and> run_mr False remdups example_loads ''bot'' [(''dir'', [''bob'', ''alice''])] example_mr
     = run_mr False (\<lambda>xs. rev (remdups xs)) example_loads ''bot'' [(''dir'', [''bob'', ''alice''])]
         example_mr"
proof -
  have "remdups [''bob'', ''alice''] \<noteq> rev (remdups [''bob'', ''alice''])" by simp
  with evaluation_deterministic [OF set_iteration_ok_remdups set_iteration_ok_rev_remdups,
      of example_loads "''bot''" "[(''dir'', [''bob'', ''alice''])]" example_mr False]
    set_iteration_ok_remdups set_iteration_ok_rev_remdups
  show ?thesis by blast
qed

subsection \<open>Serialization of the report\<close>

lemma dict_same_order_eq:
  assumes "distinct (map fst r1)" and "set r1 = set r2" and "map fst r1 = map fst r2"
  shows "r1 = r2"
proof (rule nth_equalityI)
  from assms(3) show len: "length r1 = length r2" by (rule map_eq_imp_length_eq)
  fix i assume i: "i < length r1"
  then have m1: "r1 ! i \<in> set r1" by simp
  from i len have "r2 ! i \<in> set r2" by simp
  with assms(2) have m2: "r2 ! i \<in> set r1" by simp
  from i len assms(3) have "fst (r1 ! i) = fst (r2 ! i)"
    by (metis nth_map)
  with assms(1) m1 m2 show "r1 ! i = r2 ! i"
    by (metis eq_key_imp_eq_value prod.collapse)
qed

lemma body_equals_report_same_entries:
  assumes "distinct (map fst r1)" and "distinct (map fst r2)" and "set r1 = set r2"
  shows "body_equals_report (PDict (map (\<lambda>kv. (PStr (fst kv), PStr (snd kv))) r1)) r2"
proof -
  from assms(1,2) have "distinct r1" "distinct r2" by (simp_all add: distinct_map)
  with assms(3) have len: "length r1 = length r2" by (metis distinct_card)
  have "map_of r2 (fst kv) = Some (snd kv)" if "kv \<in> set r1" for kv
    using that assms(2,3) by simp
  then have "list_all (body_item_in_report r2) (map (\<lambda>kv. (PStr (fst kv), PStr (snd kv))) r1)"
    by (simp add: list_all_iff)
  with len show ?thesis by simp
qed

text \<open>
  Claim C2, as the code has it. \<open>json.dumps\<close> writes the items in the order of the
  dictionary, so two reports with the same entries in the same order have the same text.
  In whatever order the entries were inserted, the decoded form of one report compares
  equal to the other, which is the comparison the search for a posted report makes.
\<close>

theorem same_order_reports_same_text:
  assumes "distinct (map fst r1)" and "distinct (map fst r2)" and "set r1 = set r2"
  shows "(map fst r1 = map fst r2 \<longrightarrow>
            json_dumps r1 = json_dumps r2 \<and> markdown_json_report r1 = markdown_json_report r2)
       \<and> body_equals_report (PDict (map (\<lambda>kv. (PStr (fst kv), PStr (snd kv))) r1)) r2"
proof
  show "map fst r1 = map fst r2 \<longrightarrow>
            json_dumps r1 = json_dumps r2 \<and> markdown_json_report r1 = markdown_json_report r2"
  proof
    assume "map fst r1 = map fst r2"
    with assms(1,3) have "r1 = r2" by (rule dict_same_order_eq)
    then show "json_dumps r1 = json_dumps r2 \<and>
        markdown_json_report r1 = markdown_json_report r2" by simp
  qed
  show "body_equals_report (PDict (map (\<lambda>kv. (PStr (fst kv), PStr (snd kv))) r1)) r2"
    using assms by (rule body_equals_report_same_entries)
qed

theorem same_order_reports_same_text_witness:
  "distinct (map fst [(''a'', ''x''), (''b'', ''y'')])
   \<and> distinct (map fst [(''b'', ''y''), (''a'', ''x'')])
   \<and> set [(''a'', ''x''), (''b'', ''y'')] = set [(''b'', ''y''), (''a'', ''x'')]
   \<and> body_equals_report (PDict [(PStr ''a'', PStr ''x''), (PStr ''b'', PStr ''y'')])
        [(''b'', ''y''), (''a'', ''x'')]
   \<and> map fst example_report = map fst example_report
   \<and> json_dumps example_report = json_dumps example_report"
proof -
  have d1: "distinct (map fst [(''a'', ''x''), (''b'', ''y'')])" by simp
  have d2: "distinct (map fst [(''b'', ''y''), (''a'', ''x'')])" by simp
  have s: "set [(''a'', ''x''), (''b'', ''y'')] = set [(''b'', ''y''), (''a'', ''x'')]" by auto
  have d3: "distinct (map fst example_report)" by (simp add: example_report_def)
  from same_order_reports_same_text [OF d1 d2 s] same_order_reports_same_text [OF d3 d3 refl]
    d1 d2 s
  show ?thesis by simp
qed

text \<open>
  Claim C2 as stated fails: the same two entries inserted in the two possible orders
  give two different texts.
\<close>

theorem report_order_changes_text_counterexample:
  "set [(''a'', ''x''), (''b'', ''y'')] = set [(''b'', ''y''), (''a'', ''x'')]
   \<and> map_of [(''a'', ''x''), (''b'', ''y'')] = map_of [(''b'', ''y''), (''a'', ''x'')]
   \<and> json_dumps [(''a'', ''x''), (''b'', ''y'')] \<noteq> json_dumps [(''b'', ''y''), (''a'', ''x'')]
   \<and> markdown_json_report [(''a'', ''x''), (''b'', ''y'')]
       \<noteq> markdown_json_report [(''b'', ''y''), (''a'', ''x'')]"
proof -
  have s: "set [(''a'', ''x''), (''b'', ''y'')] = set [(''b'', ''y''), (''a'', ''x'')]" by auto
  have m: "map_of [(''a'', ''x''), (''b'', ''y'')] = map_of [(''b'', ''y''), (''a'', ''x'')]"
    by (rule ext) simp
  have j: "json_dumps [(''a'', ''x''), (''b'', ''y'')] \<noteq> json_dumps [(''b'', ''y''), (''a'', ''x'')]"
    by (simp add: json_dumps_def json_item_def json_string_def json_escape_char_def)
  then have "markdown_json_report [(''a'', ''x''), (''b'', ''y'')]
       \<noteq> markdown_json_report [(''b'', ''y''), (''a'', ''x'')]"
    by (simp add: markdown_json_report_def)
  with s m j show ?thesis by blast
qed

subsection \<open>Reports already posted\<close>









subsection \<open>The example merge request\<close>














subsection \<open>Building the owners map\<close>













end
